theory Spec2Isabelle
  imports Main "HOL-Library.Word" "HOL-Library.Signed_Division" "HOL-Library.Multiset"
begin

section \<open>The generic heap of Heap.hh\<close>

text \<open>
  The class \<open>Heap<T, Compare>\<close> has two members: the vector \<open>container\<close> and the
  \<open>comparator\<close>. Both are fields of the record below; a member function that mutates
  the heap takes the record and returns the updated one.

  Integer types. \<open>size_type\<close> is the unsigned 64-bit \<open>size_t\<close>, modelled as
  \<open>64 word\<close>: its subtraction wraps around. An index is an \<open>int32_t\<close>. The
  conversion from \<open>size_type\<close> to \<open>int32_t\<close> keeps the low 32 bits and reads them as
  two's complement (\<open>to_int32\<close>). Arithmetic on \<open>int32_t\<close> is modelled on \<open>int\<close>:
  signed overflow is undefined in C++, and none occurs while the container has fewer than
  \<open>2 ^ 30\<close> elements, which is the range the theorems below are stated for.

  Exceptions. \<open>left_child\<close>, \<open>right_child\<close> and \<open>parent\<close> throw \<open>out_of_range\<close>
  when the relative node does not exist (\<open>IndexUnavailable\<close>); \<open>vector::at\<close> throws
  \<open>out_of_range\<close> for an index beyond the size (\<open>OutOfRange\<close>). A function that can
  throw returns \<open>error + 'a\<close>.

  Loops. The loop of \<open>bubble_up\<close> does not terminate for every comparator (it compares
  the root with itself), so it is a partial function into \<open>option\<close>: \<open>None\<close> is "never
  returns".
\<close>

datatype error = IndexUnavailable | OutOfRange

record 'a Heap =
  container :: "'a list"
  comparator :: "'a \<Rightarrow> 'a \<Rightarrow> bool"

type_synonym size_type = "64 word"

definition to_int32 :: "size_type \<Rightarrow> int" where
  "to_int32 w = sint (ucast w :: 32 word)"

text \<open>The default constructor: an empty container and the comparator given.\<close>

definition Heap_new :: "('a \<Rightarrow> 'a \<Rightarrow> bool) \<Rightarrow> 'a Heap" where
  "Heap_new c = \<lparr>container = [], comparator = c\<rparr>"

definition empty_heap :: "'a Heap \<Rightarrow> bool" where
  "empty_heap h = (container h = [])"

definition size_heap :: "'a Heap \<Rightarrow> size_type" where
  "size_heap h = word_of_nat (length (container h))"

text \<open>
  \<open>top()\<close> is \<open>return container.front()\<close>, with no check. On an empty vector
  \<open>front()\<close> has undefined behaviour: it throws nothing, and the language fixes no
  value. The result type says which of the two happened.
\<close>

datatype 'a access = Value 'a | Undefined

definition top_heap :: "'a Heap \<Rightarrow> 'a access" where
  "top_heap h = (case container h of [] \<Rightarrow> Undefined | x # xs \<Rightarrow> Value x)"

subsection \<open>Index arithmetic\<close>

definition get_left_child_index :: "int \<Rightarrow> int" where
  "get_left_child_index index = 2 * index + 1"

definition get_right_child_index :: "int \<Rightarrow> int" where
  "get_right_child_index index = 2 * (index + 1)"

text \<open>\<open>(index - 1) / 2\<close>: the division of C++ truncates towards zero (\<open>sdiv\<close>).\<close>

definition get_parent_index :: "int \<Rightarrow> int" where
  "get_parent_index index = (index - 1) sdiv 2"

text \<open>
  \<open>get_left_child_index(index) < this->size()\<close> compares an \<open>int32_t\<close> with a
  \<open>size_type\<close>: the index is converted to \<open>size_type\<close>, where a negative index becomes
  a value of at least \<open>2 ^ 64 - 2 ^ 31\<close>, above the size of every vector. So the
  comparison holds exactly for a non-negative index below the size.
\<close>

definition has_left_child :: "'a Heap \<Rightarrow> int \<Rightarrow> bool" where
  "has_left_child h index =
     (0 \<le> get_left_child_index index \<and> get_left_child_index index < int (length (container h)))"

definition has_right_child :: "'a Heap \<Rightarrow> int \<Rightarrow> bool" where
  "has_right_child h index =
     (0 \<le> get_right_child_index index \<and> get_right_child_index index < int (length (container h)))"

text \<open>\<open>index < (int32_t)this->size()\<close>: here the size is narrowed, and the comparison is signed.\<close>

definition has_parent :: "'a Heap \<Rightarrow> int \<Rightarrow> bool" where
  "has_parent h index = (index < to_int32 (size_heap h))"

text \<open>
  \<open>container.at(n)\<close> takes a \<open>size_type\<close>: a negative \<open>int32_t\<close> argument is converted
  as above and is out of range.
\<close>

definition container_at :: "'a Heap \<Rightarrow> int \<Rightarrow> error + 'a" where
  "container_at h n =
     (if 0 \<le> n \<and> n < int (length (container h)) then Inr (container h ! nat n)
      else Inl OutOfRange)"

definition left_child :: "'a Heap \<Rightarrow> int \<Rightarrow> error + 'a" where
  "left_child h index =
     (if \<not> has_left_child h index then Inl IndexUnavailable
      else container_at h (get_left_child_index index))"

definition right_child :: "'a Heap \<Rightarrow> int \<Rightarrow> error + 'a" where
  "right_child h index =
     (if \<not> has_right_child h index then Inl IndexUnavailable
      else container_at h (get_right_child_index index))"

definition parent :: "'a Heap \<Rightarrow> int \<Rightarrow> error + 'a" where
  "parent h index =
     (if \<not> has_parent h index then Inl IndexUnavailable
      else container_at h (get_parent_index index))"

text \<open>\<open>swap(container.at(i), container.at(j))\<close>: both accesses are checked, then the two
  elements are exchanged.\<close>

definition swap_at :: "'a Heap \<Rightarrow> int \<Rightarrow> int \<Rightarrow> error + 'a Heap" where
  "swap_at h i j =
     (case container_at h i of
        Inl e \<Rightarrow> Inl e
      | Inr a \<Rightarrow>
          (case container_at h j of
             Inl e \<Rightarrow> Inl e
           | Inr b \<Rightarrow> Inr (h\<lparr>container := (container h)[nat i := b, nat j := a]\<rparr>)))"

subsection \<open>Bubble-up and bubble-down\<close>

partial_function (option) bubble_up :: "'a Heap \<Rightarrow> int \<Rightarrow> (error + 'a Heap) option" where
  "bubble_up h index =
     (if has_parent h index then
        (case parent h index of
           Inl e \<Rightarrow> Some (Inl e)
         | Inr p \<Rightarrow>
             (case container_at h index of
                Inl e \<Rightarrow> Some (Inl e)
              | Inr x \<Rightarrow>
                  if comparator h p x then
                    (case swap_at h index (get_parent_index index) of
                       Inl e \<Rightarrow> Some (Inl e)
                     | Inr h' \<Rightarrow> bubble_up h' (get_parent_index index))
                  else Some (Inr h)))
      else Some (Inr h))"

declare bubble_up.simps [code]

text \<open>The index bubble-down would swap with: the left child, or the right child when it
  exists and the comparator holds from the left child to the right one.\<close>

definition swappable_index :: "'a Heap \<Rightarrow> int \<Rightarrow> error + int" where
  "swappable_index h index =
     (if has_right_child h index then
        (case left_child h index of
           Inl e \<Rightarrow> Inl e
         | Inr l \<Rightarrow>
             (case right_child h index of
                Inl e \<Rightarrow> Inl e
              | Inr r \<Rightarrow>
                  Inr (if comparator h l r then get_right_child_index index
                       else get_left_child_index index)))
      else Inr (get_left_child_index index))"

function bubble_down :: "'a Heap \<Rightarrow> int \<Rightarrow> error + 'a Heap" where
  "bubble_down h index =
     (if has_left_child h index then
        (case swappable_index h index of
           Inl e \<Rightarrow> Inl e
         | Inr s \<Rightarrow>
             (case container_at h index of
                Inl e \<Rightarrow> Inl e
              | Inr x \<Rightarrow>
                  (case container_at h s of
                     Inl e \<Rightarrow> Inl e
                   | Inr y \<Rightarrow>
                       if comparator h x y then
                         (case swap_at h index s of
                            Inl e \<Rightarrow> Inl e
                          | Inr h' \<Rightarrow> bubble_down h' s)
                       else Inr h)))
      else Inr h)"
  by pat_completeness auto
termination
proof (relation "measure (\<lambda>(h, index). length (container h) - nat index)")
  show "wf (measure (\<lambda>(h, index). length (container h) - nat index))"
    by simp
next
  fix h :: "'a Heap" and index s :: int and x y :: 'a and h' :: "'a Heap"
  assume l: "has_left_child h index"
    and s: "swappable_index h index = Inr s"
    and sw: "swap_at h index s = Inr h'"
  from sw have len: "length (container h') = length (container h)"
    by (auto simp: swap_at_def split: sum.splits)
  from s have "s = get_left_child_index index \<or> s = get_right_child_index index"
    by (auto simp: swappable_index_def split: if_splits sum.splits)
  moreover from l have "0 \<le> index" and "2 * index + 1 < int (length (container h))"
    by (auto simp: has_left_child_def get_left_child_index_def)
  ultimately have "nat index < nat s" and "nat index < length (container h)"
    by (auto simp: get_left_child_index_def get_right_child_index_def)
  with len have "length (container h') - nat s < length (container h) - nat index"
    by arith
  then show "((h', s), (h, index)) \<in> measure (\<lambda>(h, index). length (container h) - nat index)"
    by simp
qed

declare bubble_down.simps [simp del]

subsection \<open>The public operations\<close>

definition push :: "'a Heap \<Rightarrow> 'a \<Rightarrow> (error + 'a Heap) option" where
  "push h v =
     (let h' = h\<lparr>container := container h @ [v]\<rparr>
      in bubble_up h' (to_int32 (size_heap h' - 1)))"

text \<open>\<open>for (int32_t i = container.size() - 1; i >= 0; i--) bubble_down(i);\<close>\<close>

function heapify_loop :: "'a Heap \<Rightarrow> int \<Rightarrow> error + 'a Heap" where
  "heapify_loop h i =
     (if 0 \<le> i then
        (case bubble_down h i of
           Inl e \<Rightarrow> Inl e
         | Inr h' \<Rightarrow> heapify_loop h' (i - 1))
      else Inr h)"
  by pat_completeness auto
termination
  by (relation "measure (\<lambda>(h, i). nat (i + 1))") auto

declare heapify_loop.simps [simp del]

text \<open>The start value of the loop: the unsigned \<open>size() - 1\<close>, narrowed to \<open>int32_t\<close>.\<close>

definition heapify_start :: "'a Heap \<Rightarrow> int" where
  "heapify_start h = to_int32 (size_heap h - 1)"

definition heapify :: "'a Heap \<Rightarrow> 'a list \<Rightarrow> error + 'a Heap" where
  "heapify h elements =
     (let h1 = h\<lparr>container := []\<rparr>;
          h2 = h1\<lparr>container := elements\<rparr>
      in heapify_loop h2 (heapify_start h2))"

text \<open>\<open>swap(container.front(), container.back()); container.pop_back();\<close> on a non-empty
  container.\<close>

definition swap_front_back :: "'a list \<Rightarrow> 'a list" where
  "swap_front_back xs = xs[0 := last xs, length xs - 1 := hd xs]"

definition pop :: "'a Heap \<Rightarrow> error + 'a Heap" where
  "pop h =
     (if \<not> empty_heap h then
        bubble_down (h\<lparr>container := butlast (swap_front_back (container h))\<rparr>) 0
      else Inr h)"

text \<open>The two tests of one round of the loop of \<open>is_heap\<close>, for the \<open>size_type\<close> counter
  \<open>i\<close>: the helper functions take it narrowed to \<open>int32_t\<close>, \<open>container.at\<close> takes it
  as it is. \<open>&&\<close> evaluates its right operand only when the left one holds.\<close>

definition left_violated :: "'a Heap \<Rightarrow> size_type \<Rightarrow> error + bool" where
  "left_violated h i =
     (if has_left_child h (to_int32 i) then
        (case container_at h (uint i) of
           Inl e \<Rightarrow> Inl e
         | Inr x \<Rightarrow>
             (case left_child h (to_int32 i) of
                Inl e \<Rightarrow> Inl e
              | Inr l \<Rightarrow> Inr (comparator h x l)))
      else Inr False)"

definition right_violated :: "'a Heap \<Rightarrow> size_type \<Rightarrow> error + bool" where
  "right_violated h i =
     (if has_right_child h (to_int32 i) then
        (case container_at h (uint i) of
           Inl e \<Rightarrow> Inl e
         | Inr x \<Rightarrow>
             (case right_child h (to_int32 i) of
                Inl e \<Rightarrow> Inl e
              | Inr r \<Rightarrow> Inr (comparator h x r)))
      else Inr False)"

function is_heap_loop :: "'a Heap \<Rightarrow> size_type \<Rightarrow> size_type \<Rightarrow> error + bool" where
  "is_heap_loop h sz i =
     (if i < sz then
        (case left_violated h i of
           Inl e \<Rightarrow> Inl e
         | Inr True \<Rightarrow> Inr False
         | Inr False \<Rightarrow>
             (case right_violated h i of
                Inl e \<Rightarrow> Inl e
              | Inr True \<Rightarrow> Inr False
              | Inr False \<Rightarrow> is_heap_loop h sz (i + 1)))
      else Inr True)"
  by pat_completeness auto
termination
proof (relation "measure (\<lambda>(h, sz, i). unat sz - unat i)")
  show "wf (measure (\<lambda>(h, sz, i). unat sz - unat i))"
    by simp
next
  fix h :: "'a Heap" and sz i :: size_type
  assume "i < sz"
  then have "unat i < unat sz"
    by (simp add: word_less_nat_alt)
  moreover from \<open>i < sz\<close> have "unat (i + 1) = unat i + 1"
    by (metis (no_types, lifting) add.commute add_0 inc_i inc_le
        unat_plus_simple unsigned_0 unsigned_1 word_gt_0)
  ultimately show "((h, sz, i + 1), (h, sz, i)) \<in> measure (\<lambda>(h, sz, i). unat sz - unat i)"
    by simp
qed

declare is_heap_loop.simps [simp del]

definition is_heap :: "'a Heap \<Rightarrow> error + bool" where
  "is_heap h = is_heap_loop h (size_heap h) 0"

section \<open>Specification vocabulary\<close>


definition strict_weak_order :: "('a \<Rightarrow> 'a \<Rightarrow> bool) \<Rightarrow> bool" where
  "strict_weak_order c =
     ((\<forall>x. \<not> c x x) \<and> (\<forall>x y z. c x y \<longrightarrow> c y z \<longrightarrow> c x z) \<and>
      (\<forall>x y z. \<not> c x y \<longrightarrow> \<not> c y z \<longrightarrow> \<not> c x z))"


text \<open>
  The heap-order property: for every index \<open>i\<close> with a left child at \<open>2i+1\<close> (a right
  child at \<open>2i+2\<close>) within bounds, the comparator is false from the element at \<open>i\<close> to
  the child.
\<close>

definition heap_order :: "('a \<Rightarrow> 'a \<Rightarrow> bool) \<Rightarrow> 'a list \<Rightarrow> bool" where
  "heap_order c xs =
     (\<forall>i. (2 * i + 1 < length xs \<longrightarrow> \<not> c (xs ! i) (xs ! (2 * i + 1))) \<and>
          (2 * i + 2 < length xs \<longrightarrow> \<not> c (xs ! i) (xs ! (2 * i + 2))))"

definition node_ok :: "('a \<Rightarrow> 'a \<Rightarrow> bool) \<Rightarrow> 'a list \<Rightarrow> nat \<Rightarrow> bool" where
  "node_ok c xs i =
     ((2 * i + 1 < length xs \<longrightarrow> \<not> c (xs ! i) (xs ! (2 * i + 1))) \<and>
      (2 * i + 2 < length xs \<longrightarrow> \<not> c (xs ! i) (xs ! (2 * i + 2))))"

text \<open>
  Loop invariants, on the child's side: \<open>(j - 1) div 2\<close> is the parent of \<open>j > 0\<close>.
  \<open>heap_from c r xs\<close>: every parent at index \<open>r\<close> or above is in order with its
  children. \<open>bd_pre c r k xs\<close>, before a round of bubble-down at \<open>k\<close>: the same, but for
  the parent \<open>k\<close>, whose children are in order with the parent of \<open>k\<close> instead.
  \<open>bu_pre c k xs\<close>, before a round of bubble-up at \<open>k\<close>: every child but \<open>k\<close> is in
  order with its parent, and the children of \<open>k\<close> with the parent of \<open>k\<close>.
\<close>

definition heap_from :: "('a \<Rightarrow> 'a \<Rightarrow> bool) \<Rightarrow> nat \<Rightarrow> 'a list \<Rightarrow> bool" where
  "heap_from c r xs =
     (\<forall>j. 0 < j \<and> j < length xs \<and> r \<le> (j - 1) div 2 \<longrightarrow> \<not> c (xs ! ((j - 1) div 2)) (xs ! j))"

definition bd_pre :: "('a \<Rightarrow> 'a \<Rightarrow> bool) \<Rightarrow> nat \<Rightarrow> nat \<Rightarrow> 'a list \<Rightarrow> bool" where
  "bd_pre c r k xs =
     ((\<forall>j. 0 < j \<and> j < length xs \<and> r \<le> (j - 1) div 2 \<and> (j - 1) div 2 \<noteq> k
          \<longrightarrow> \<not> c (xs ! ((j - 1) div 2)) (xs ! j)) \<and>
      (0 < k \<and> r \<le> (k - 1) div 2 \<longrightarrow>
         (\<forall>j. 0 < j \<and> j < length xs \<and> (j - 1) div 2 = k \<longrightarrow> \<not> c (xs ! ((k - 1) div 2)) (xs ! j))))"


text \<open>Bubble-down called once for each index of a list, in the order of the list.\<close>

fun bubble_down_each :: "'a Heap \<Rightarrow> int list \<Rightarrow> error + 'a Heap" where
  "bubble_down_each h [] = Inr h"
| "bubble_down_each h (i # is) =
     (case bubble_down h i of Inl e \<Rightarrow> Inl e | Inr h' \<Rightarrow> bubble_down_each h' is)"

subsection \<open>Sequences of public operations\<close>





text \<open>
  A client loop: while the heap is not empty, read \<open>top()\<close> and call \<open>pop()\<close>. The
  result is the list of the values read. It terminates because \<open>pop\<close> on a non-empty
  heap shortens the container.
\<close>

function drain :: "'a Heap \<Rightarrow> error + 'a access list" where
  "drain h =
     (if empty_heap h then Inr []
      else (case pop h of
              Inl e \<Rightarrow> Inl e
            | Inr h' \<Rightarrow>
                (case drain h' of
                   Inl e \<Rightarrow> Inl e
                 | Inr ts \<Rightarrow> Inr (top_heap h # ts))))"
  by pat_completeness auto
termination
proof (relation "measure (\<lambda>h. length (container h))")
  show "wf (measure (\<lambda>h. length (container h)))" by simp
next
  fix h h' :: "'a Heap"
  assume ne: "\<not> empty_heap h" and p: "pop h = Inr h'"
  have len: "bubble_down g i = Inr g' \<Longrightarrow> length (container g') = length (container g)"
    for g g' :: "'a Heap" and i
  proof (induction g i rule: bubble_down.induct)
    case (1 g index)
    from "1.prems" show ?case
      by (subst (asm) bubble_down.simps)
        (auto split: if_splits sum.splits dest!: "1.IH" simp: swap_at_def)
  qed
  from ne p have "length (container h') = length (butlast (swap_front_back (container h)))"
    by (auto simp: pop_def dest!: len)
  with ne have "length (container h') < length (container h)"
    by (simp add: empty_heap_def swap_front_back_def)
  then show "(h', h) \<in> measure (\<lambda>h. length (container h))" by simp
qed

declare drain.simps [simp del]

text \<open>Reading a result after a call that may have thrown.\<close>

definition then_top :: "error + 'a Heap \<Rightarrow> error + 'a access" where
  "then_top r = (case r of Inl e \<Rightarrow> Inl e | Inr h \<Rightarrow> Inr (top_heap h))"

definition then_drain :: "error + 'a Heap \<Rightarrow> error + 'a access list" where
  "then_drain r = (case r of Inl e \<Rightarrow> Inl e | Inr h \<Rightarrow> drain h)"

definition then_size :: "error + 'a Heap \<Rightarrow> error + nat" where
  "then_size r = (case r of Inl e \<Rightarrow> Inl e | Inr h \<Rightarrow> Inr (unat (size_heap h)))"

definition then_container :: "error + 'a Heap \<Rightarrow> error + 'a list" where
  "then_container r = (case r of Inl e \<Rightarrow> Inl e | Inr h \<Rightarrow> Inr (container h))"



section \<open>Index arithmetic and the loops on natural indices\<close>

subsection \<open>The heap-order property, on the child's side\<close>

lemma parent_cases: "0 < j \<Longrightarrow> ((j - 1) div 2 = k) = (j = 2 * k + 1 \<or> j = 2 * k + 2)" for j k :: nat
  by arith

lemma heap_order_iff: "heap_order c xs = heap_from c 0 xs"
proof
  assume h: "heap_order c xs"
  show "heap_from c 0 xs"
    unfolding heap_from_def
  proof (intro allI impI)
    fix j assume j: "0 < j \<and> j < length xs \<and> 0 \<le> (j - 1) div 2"
    then have "j = 2 * ((j - 1) div 2) + 1 \<or> j = 2 * ((j - 1) div 2) + 2" by arith
    with h j show "\<not> c (xs ! ((j - 1) div 2)) (xs ! j)"
      unfolding heap_order_def by metis
  qed
next
  assume h: "heap_from c 0 xs"
  show "heap_order c xs"
    unfolding heap_order_def
  proof (intro allI conjI impI)
    fix i assume "2 * i + 1 < length xs"
    with h have "\<not> c (xs ! ((2 * i + 1 - 1) div 2)) (xs ! (2 * i + 1))"
      unfolding heap_from_def by (metis add_gr_0 le0 zero_less_one)
    then show "\<not> c (xs ! i) (xs ! (2 * i + 1))" by simp
  next
    fix i assume "2 * i + 2 < length xs"
    with h have "\<not> c (xs ! ((2 * i + 2 - 1) div 2)) (xs ! (2 * i + 2))"
      unfolding heap_from_def by (metis add_gr_0 le0 zero_less_numeral)
    moreover have "(2 * i + 2 - 1) div 2 = i" by arith
    ultimately show "\<not> c (xs ! i) (xs ! (2 * i + 2))" by simp
  qed
qed

lemma bd_leaf: "bd_pre c r k xs \<Longrightarrow> \<not> 2 * k + 1 < length xs \<Longrightarrow> heap_from c r xs"
  unfolding bd_pre_def heap_from_def
proof (intro allI impI)
  fix j
  assume pre: "(\<forall>j. 0 < j \<and> j < length xs \<and> r \<le> (j - 1) div 2 \<and> (j - 1) div 2 \<noteq> k
          \<longrightarrow> \<not> c (xs ! ((j - 1) div 2)) (xs ! j)) \<and>
      (0 < k \<and> r \<le> (k - 1) div 2 \<longrightarrow>
         (\<forall>j. 0 < j \<and> j < length xs \<and> (j - 1) div 2 = k \<longrightarrow> \<not> c (xs ! ((k - 1) div 2)) (xs ! j)))"
    and leaf: "\<not> 2 * k + 1 < length xs"
    and j: "0 < j \<and> j < length xs \<and> r \<le> (j - 1) div 2"
  from leaf j have "(j - 1) div 2 \<noteq> k" by arith
  with pre j show "\<not> c (xs ! ((j - 1) div 2)) (xs ! j)" by blast
qed

subsection \<open>One round of bubble-down keeps the invariant\<close>

lemma swo_irrefl: "strict_weak_order c \<Longrightarrow> \<not> c x x"
  by (simp add: strict_weak_order_def)

lemma swo_trans: "strict_weak_order c \<Longrightarrow> c x y \<Longrightarrow> c y z \<Longrightarrow> c x z"
  unfolding strict_weak_order_def by blast

lemma swo_negtrans: "strict_weak_order c \<Longrightarrow> \<not> c x y \<Longrightarrow> \<not> c y z \<Longrightarrow> \<not> c x z"
  unfolding strict_weak_order_def by blast

lemma swo_asym: "strict_weak_order c \<Longrightarrow> c x y \<Longrightarrow> \<not> c y x"
  using swo_irrefl swo_trans by metis

lemma bd_stop:
  assumes swo: "strict_weak_order c"
    and pre: "bd_pre c r k xs"
    and l: "2 * k + 1 < length xs"
    and s: "s = (if 2 * k + 2 < length xs \<and> c (xs ! (2 * k + 1)) (xs ! (2 * k + 2))
                 then 2 * k + 2 else 2 * k + 1)"
    and stop: "\<not> c (xs ! k) (xs ! s)"
  shows "heap_from c r xs"
  unfolding heap_from_def
proof (intro allI impI)
  fix j
  assume j: "0 < j \<and> j < length xs \<and> r \<le> (j - 1) div 2"
  show "\<not> c (xs ! ((j - 1) div 2)) (xs ! j)"
  proof (cases "(j - 1) div 2 = k")
    case False
    with pre j show ?thesis unfolding bd_pre_def by blast
  next
    case True
    with j have jc: "j = 2 * k + 1 \<or> j = 2 * k + 2" by arith
    have both: "\<not> c (xs ! k) (xs ! (2 * k + 1)) \<and>
                (2 * k + 2 < length xs \<longrightarrow> \<not> c (xs ! k) (xs ! (2 * k + 2)))"
    proof (cases "2 * k + 2 < length xs \<and> c (xs ! (2 * k + 1)) (xs ! (2 * k + 2))")
      case True
      with s stop have nr: "\<not> c (xs ! k) (xs ! (2 * k + 2))" by simp
      with True swo_trans [OF swo] have "\<not> c (xs ! k) (xs ! (2 * k + 1))" by blast
      with nr show ?thesis by simp
    next
      case False
      with s stop have nl: "\<not> c (xs ! k) (xs ! (2 * k + 1))" by auto
      with False swo_negtrans [OF swo] show ?thesis by blast
    qed
    from jc j both True show ?thesis by auto
  qed
qed

lemma bd_step:
  assumes swo: "strict_weak_order c"
    and pre: "bd_pre c r k xs"
    and l: "2 * k + 1 < length xs"
    and s: "s = (if 2 * k + 2 < length xs \<and> c (xs ! (2 * k + 1)) (xs ! (2 * k + 2))
                 then 2 * k + 2 else 2 * k + 1)"
    and go: "c (xs ! k) (xs ! s)"
  shows "bd_pre c r s (xs[k := xs ! s, s := xs ! k])"
proof -
  let ?ys = "xs[k := xs ! s, s := xs ! k]"
  from s l have sl: "s < length xs" and ks: "k < s" and ps: "(s - 1) div 2 = k" and s0: "0 < s"
    by (auto split: if_splits)
  have k: "k < length xs" using ks sl by simp
  have yk: "?ys ! k = xs ! s" using ks k by simp
  have ys: "?ys ! s = xs ! k" using sl by simp
  have yo: "\<And>i. i \<noteq> k \<Longrightarrow> i \<noteq> s \<Longrightarrow> ?ys ! i = xs ! i" by simp
  have part1: "\<not> c (?ys ! ((j - 1) div 2)) (?ys ! j)"
    if j: "0 < j" "j < length xs" "r \<le> (j - 1) div 2" "(j - 1) div 2 \<noteq> s" for j
  proof -
    consider (a) "j = k" | (b) "j = s" | (c) "j \<noteq> k" "j \<noteq> s" "(j - 1) div 2 = k"
      | (d) "j \<noteq> k" "j \<noteq> s" "(j - 1) div 2 \<noteq> k" by blast
    then show ?thesis
    proof cases
      case a
      with j have pk: "(k - 1) div 2 < k" "0 < k" "r \<le> (k - 1) div 2" by auto
      with pre sl s0 ps have "\<not> c (xs ! ((k - 1) div 2)) (xs ! s)"
        unfolding bd_pre_def by blast
      moreover from pk ks have "?ys ! ((k - 1) div 2) = xs ! ((k - 1) div 2)" by simp
      ultimately show ?thesis using a yk by simp
    next
      case b
      with ps yk ys swo_asym [OF swo go] show ?thesis by simp
    next
      case c
      with j have jc: "j = 2 * k + 1 \<or> j = 2 * k + 2" by arith
      have "\<not> c (xs ! s) (xs ! j)"
      proof (cases "2 * k + 2 < length xs \<and> c (xs ! (2 * k + 1)) (xs ! (2 * k + 2))")
        case True
        with s c jc have "s = 2 * k + 2" "j = 2 * k + 1" by auto
        with True swo_asym [OF swo] show ?thesis by blast
      next
        case False
        with s c jc have "s = 2 * k + 1" "j = 2 * k + 2" by auto
        with False j show ?thesis by auto
      qed
      with c yk yo show ?thesis by simp
    next
      case d
      with j have "?ys ! ((j - 1) div 2) = xs ! ((j - 1) div 2)" "?ys ! j = xs ! j" by simp_all
      moreover from pre j d have "\<not> c (xs ! ((j - 1) div 2)) (xs ! j)"
        unfolding bd_pre_def by blast
      ultimately show ?thesis by simp
    qed
  qed
  have part2: "\<not> c (?ys ! ((s - 1) div 2)) (?ys ! j)"
    if j: "0 < j" "j < length xs" "(j - 1) div 2 = s" and r: "r \<le> (s - 1) div 2" for j
  proof -
    from j ks have ne: "j \<noteq> k" "j \<noteq> s" by arith+
    from r ps ks have "r \<le> (j - 1) div 2" "(j - 1) div 2 \<noteq> k" using j by simp_all
    with pre j have "\<not> c (xs ! s) (xs ! j)" unfolding bd_pre_def by metis
    with ne ps yk yo show ?thesis by simp
  qed
  have len: "length ?ys = length xs" by simp
  show ?thesis
    unfolding bd_pre_def len using part1 part2 by blast
qed

subsection \<open>Bubble-down on natural indices\<close>

lemma get_left_child_index_nat: "get_left_child_index (int k) = int (2 * k + 1)"
  by (simp add: get_left_child_index_def)

lemma get_right_child_index_nat: "get_right_child_index (int k) = int (2 * k + 2)"
  by (simp add: get_right_child_index_def)

lemma has_left_child_nat:
  "has_left_child h (int k) = (2 * k + 1 < length (container h))"
  unfolding has_left_child_def get_left_child_index_nat
  by (simp only: of_nat_less_iff of_nat_0_le_iff simp_thms)

lemma has_right_child_nat:
  "has_right_child h (int k) = (2 * k + 2 < length (container h))"
  unfolding has_right_child_def get_right_child_index_nat
  by (simp only: of_nat_less_iff of_nat_0_le_iff simp_thms)

lemma container_at_nat:
  "k < length (container h) \<Longrightarrow> container_at h (int k) = Inr (container h ! k)"
  by (simp add: container_at_def)

lemma swap_at_nat:
  "i < length (container h) \<Longrightarrow> j < length (container h) \<Longrightarrow>
   swap_at h (int i) (int j) = Inr (h\<lparr>container := (container h)[i := container h ! j, j := container h ! i]\<rparr>)"
  by (simp add: swap_at_def container_at_nat)

lemma swappable_index_nat:
  assumes "2 * k + 1 < length (container h)"
  shows "swappable_index h (int k) =
           Inr (int (if 2 * k + 2 < length (container h) \<and>
                        comparator h (container h ! (2 * k + 1)) (container h ! (2 * k + 2))
                     then 2 * k + 2 else 2 * k + 1))"
proof -
  have l: "left_child h (int k) = Inr (container h ! (2 * k + 1))"
    unfolding left_child_def get_left_child_index_nat has_left_child_nat
    using assms by (simp only: container_at_nat not_True_eq_False if_False)
  have r: "right_child h (int k) = Inr (container h ! (2 * k + 2))"
    if "2 * k + 2 < length (container h)"
    unfolding right_child_def get_right_child_index_nat has_right_child_nat
    using that by (simp only: container_at_nat not_True_eq_False if_False)
  show ?thesis
  proof (cases "2 * k + 2 < length (container h)")
    case True
    show ?thesis
      unfolding swappable_index_def has_right_child_nat l r [OF True]
        get_left_child_index_nat get_right_child_index_nat
      using True by (simp del: of_nat_add of_nat_mult)
  next
    case False
    show ?thesis
      unfolding swappable_index_def has_right_child_nat get_left_child_index_nat
      using False by (simp del: of_nat_add of_nat_mult)
  qed
qed

text \<open>One round of the loop of bubble-down, on natural indices.\<close>

lemma bubble_down_unfold:
  "bubble_down h (int k) =
     (let xs = container h in
      if 2 * k + 1 < length xs then
        (let s = (if 2 * k + 2 < length xs \<and> comparator h (xs ! (2 * k + 1)) (xs ! (2 * k + 2))
                  then 2 * k + 2 else 2 * k + 1)
         in if comparator h (xs ! k) (xs ! s)
            then bubble_down (h\<lparr>container := xs[k := xs ! s, s := xs ! k]\<rparr>) (int s)
            else Inr h)
      else Inr h)"
proof (cases "2 * k + 1 < length (container h)")
  case False
  then show ?thesis
    by (subst bubble_down.simps) (simp add: has_left_child_nat)
next
  case True
  define s where "s = (if 2 * k + 2 < length (container h) \<and>
      comparator h (container h ! (2 * k + 1)) (container h ! (2 * k + 2))
      then 2 * k + 2 else 2 * k + 1)"
  have sl: "s < length (container h)" and kl: "k < length (container h)"
    using True by (auto simp: s_def)
  have sw: "swappable_index h (int k) = Inr (int s)"
    unfolding s_def by (rule swappable_index_nat [OF True])
  have step: "bubble_down h (int k) =
      (if comparator h (container h ! k) (container h ! s)
       then bubble_down (h\<lparr>container := (container h)[k := container h ! s, s := container h ! k]\<rparr>) (int s)
       else Inr h)"
    using True sl kl
    by (subst bubble_down.simps) (simp add: has_left_child_nat sw container_at_nat swap_at_nat)
  show ?thesis
    unfolding Let_def s_def [symmetric] 
    using True step by simp
qed

lemma bubble_down_total:
  "\<exists>h'. bubble_down h (int k) = Inr h' \<and> comparator h' = comparator h \<and>
        length (container h') = length (container h) \<and>
        mset (container h') = mset (container h)"
proof (induction "length (container h) - k" arbitrary: h k rule: less_induct)
  case less
  let ?xs = "container h"
  show ?case
  proof (cases "2 * k + 1 < length ?xs")
    case False
    then show ?thesis by (simp add: bubble_down_unfold)
  next
    case True
    define s where "s = (if 2 * k + 2 < length ?xs \<and>
        comparator h (?xs ! (2 * k + 1)) (?xs ! (2 * k + 2)) then 2 * k + 2 else 2 * k + 1)"
    have sl: "s < length ?xs" and kl: "k < length ?xs" and ks: "k < s"
      using True by (auto simp: s_def)
    show ?thesis
    proof (cases "comparator h (?xs ! k) (?xs ! s)")
      case False
      then show ?thesis using True by (simp add: bubble_down_unfold Let_def s_def)
    next
      case go: True
      let ?h = "h\<lparr>container := ?xs[k := ?xs ! s, s := ?xs ! k]\<rparr>"
      have "length (container ?h) - s < length ?xs - k" using sl ks by simp
      from less [OF this] obtain h' where
        "bubble_down ?h (int s) = Inr h'" "comparator h' = comparator ?h"
        "length (container h') = length (container ?h)"
        "mset (container h') = mset (container ?h)" by blast
      moreover have "bubble_down h (int k) = bubble_down ?h (int s)"
        using True go by (simp add: bubble_down_unfold [of h k] Let_def s_def)
      moreover have "mset (container ?h) = mset ?xs"
        using mset_swap [OF sl kl] by simp
      ultimately show ?thesis by simp
    qed
  qed
qed

lemma bubble_down_order:
  "strict_weak_order (comparator h) \<Longrightarrow> bd_pre (comparator h) r k (container h) \<Longrightarrow>
   bubble_down h (int k) = Inr h' \<Longrightarrow> heap_from (comparator h) r (container h')"
proof (induction "length (container h) - k" arbitrary: h k rule: less_induct)
  case less
  let ?xs = "container h"
  let ?c = "comparator h"
  show ?case
  proof (cases "2 * k + 1 < length ?xs")
    case False
    with less.prems(3) have "h' = h" by (simp add: bubble_down_unfold)
    with bd_leaf [OF less.prems(2) False] show ?thesis by simp
  next
    case True
    define s where "s = (if 2 * k + 2 < length ?xs \<and>
        ?c (?xs ! (2 * k + 1)) (?xs ! (2 * k + 2)) then 2 * k + 2 else 2 * k + 1)"
    have sl: "s < length ?xs" and kl: "k < length ?xs" and ks: "k < s"
      using True by (auto simp: s_def)
    show ?thesis
    proof (cases "?c (?xs ! k) (?xs ! s)")
      case False
      with less.prems(3) True have "h' = h"
        by (simp add: bubble_down_unfold [of h k] Let_def s_def)
      with bd_stop [OF less.prems(1,2) True s_def False] show ?thesis by simp
    next
      case go: True
      let ?h = "h\<lparr>container := ?xs[k := ?xs ! s, s := ?xs ! k]\<rparr>"
      have m: "length (container ?h) - s < length ?xs - k" using sl ks by simp
      have r: "bubble_down ?h (int s) = Inr h'"
        using less.prems(3) True go by (simp add: bubble_down_unfold [of h k] Let_def s_def)
      have "bd_pre (comparator ?h) r s (container ?h)"
        using bd_step [OF less.prems(1,2) True s_def go] by simp
      from less.hyps [OF m _ this r] less.prems(1) show ?thesis by simp
    qed
  qed
qed

subsection \<open>Narrowing a size to an index\<close>

lemma to_int32_alt: "to_int32 w = signed_take_bit 31 (uint w)"
proof -
  have "sint (ucast w :: 32 word) = signed_take_bit 31 (uint (ucast w :: 32 word))"
    by (simp add: sint_uint)
  also have "uint (ucast w :: 32 word) = take_bit 32 (uint w)"
    by (simp add: unsigned_ucast_eq)
  also have "signed_take_bit 31 (take_bit 32 (uint w)) = signed_take_bit 31 (uint w)"
    by (simp add: signed_take_bit_take_bit)
  finally show ?thesis by (simp add: to_int32_def)
qed

lemma uint_of_nat64: "n < 2 ^ 31 \<Longrightarrow> uint (word_of_nat n :: 64 word) = int n"
proof -
  assume "n < 2 ^ 31"
  then have "n < 2 ^ 64" by simp
  then show ?thesis
    by (simp add: unsigned_of_nat take_bit_nat_eq_self)
qed

lemma to_int32_of_nat: "n < 2 ^ 31 \<Longrightarrow> to_int32 (word_of_nat n) = int n"
proof -
  assume n: "n < 2 ^ 31"
  then have "int n < 2 ^ 31" by (metis of_nat_less_iff of_nat_numeral of_nat_power)
  then have "signed_take_bit 31 (int n) = int n"
    by (intro signed_take_bit_int_eq_self) simp_all
  with n show ?thesis by (simp add: to_int32_alt uint_of_nat64)
qed

lemma to_int32_pred: "0 < n \<Longrightarrow> n \<le> 2 ^ 31 \<Longrightarrow> to_int32 (word_of_nat n - 1) = int n - 1"
proof -
  assume n: "0 < n" "n \<le> 2 ^ 31"
  then obtain m where m: "n = Suc m" by (cases n) auto
  with n have "m < 2 ^ 31" by simp
  from to_int32_of_nat [OF this] m show ?thesis by simp
qed

lemma to_int32_underflow: "to_int32 (0 - 1) = - 1"
proof -
  have "uint (- 1 :: 64 word) = 2 ^ 64 - 1"
    by (simp add: unsigned_minus_1_eq_mask mask_eq_exp_minus_1)
  then show ?thesis
    by (simp add: to_int32_alt signed_take_bit_eq_take_bit_shift take_bit_eq_mod)
qed


subsection \<open>Bubble-up\<close>








subsection \<open>The loop of is-heap decides the heap-order property\<close>

lemma word_of_nat_less64:
  "i < 2 ^ 31 \<Longrightarrow> n < 2 ^ 31 \<Longrightarrow> ((word_of_nat i :: 64 word) < word_of_nat n) = (i < n)"
  using uint_of_nat64 [of i] uint_of_nat64 [of n] by (simp add: word_less_def)

lemma left_child_nat:
  "2 * k + 1 < length (container h) \<Longrightarrow> left_child h (int k) = Inr (container h ! (2 * k + 1))"
  unfolding left_child_def get_left_child_index_nat has_left_child_nat
  by (simp only: container_at_nat not_True_eq_False if_False)

lemma right_child_nat:
  "2 * k + 2 < length (container h) \<Longrightarrow> right_child h (int k) = Inr (container h ! (2 * k + 2))"
  unfolding right_child_def get_right_child_index_nat has_right_child_nat
  by (simp only: container_at_nat not_True_eq_False if_False)

lemma left_violated_nat:
  assumes "i < length (container h)" "length (container h) < 2 ^ 31"
  shows "left_violated h (word_of_nat i) =
           Inr (2 * i + 1 < length (container h) \<and>
                comparator h (container h ! i) (container h ! (2 * i + 1)))"
proof -
  from assms have i: "i < 2 ^ 31" by simp
  show ?thesis
    unfolding left_violated_def to_int32_of_nat [OF i] uint_of_nat64 [OF i] has_left_child_nat
    using assms by (simp add: container_at_nat left_child_nat)
qed

lemma right_violated_nat:
  assumes "i < length (container h)" "length (container h) < 2 ^ 31"
  shows "right_violated h (word_of_nat i) =
           Inr (2 * i + 2 < length (container h) \<and>
                comparator h (container h ! i) (container h ! (2 * i + 2)))"
proof -
  from assms have i: "i < 2 ^ 31" by simp
  show ?thesis
    unfolding right_violated_def to_int32_of_nat [OF i] uint_of_nat64 [OF i] has_right_child_nat
    using assms by (simp add: container_at_nat right_child_nat)
qed

lemma is_heap_loop_nat:
  assumes len: "length (container h) < 2 ^ 31"
  shows "i \<le> length (container h) \<Longrightarrow>
         is_heap_loop h (word_of_nat (length (container h))) (word_of_nat i) =
           Inr (\<forall>k. i \<le> k \<and> k < length (container h) \<longrightarrow> node_ok (comparator h) (container h) k)"
proof (induction "length (container h) - i" arbitrary: i)
  case 0
  then have "i = length (container h)" by simp
  then show ?case
    by (subst is_heap_loop.simps) auto
next
  case (Suc d)
  then have il: "i < length (container h)" by simp
  with len have i31: "i < 2 ^ 31" by simp
  have lt: "(word_of_nat i :: 64 word) < word_of_nat (length (container h))"
    using word_of_nat_less64 [OF i31 len] il by simp
  have nxt: "(word_of_nat i :: 64 word) + 1 = word_of_nat (Suc i)" by simp
  have IH: "is_heap_loop h (word_of_nat (length (container h))) (word_of_nat (Suc i)) =
      Inr (\<forall>k. Suc i \<le> k \<and> k < length (container h) \<longrightarrow> node_ok (comparator h) (container h) k)"
    using Suc.hyps(2) il by (intro Suc.hyps(1)) simp_all
  have split: "(\<forall>k. i \<le> k \<and> k < length (container h) \<longrightarrow> node_ok (comparator h) (container h) k) =
      (node_ok (comparator h) (container h) i \<and>
       (\<forall>k. Suc i \<le> k \<and> k < length (container h) \<longrightarrow> node_ok (comparator h) (container h) k))"
    using il by (metis Suc_leI le_eq_less_or_eq Suc_le_lessD)
  show ?case
    unfolding split
    by (subst is_heap_loop.simps)
      (simp only: lt if_True left_violated_nat [OF il len] right_violated_nat [OF il len]
        nxt IH, auto simp: node_ok_def [of _ _ i] split: bool.splits)
qed

lemma is_heap_nat:
  assumes len: "length (container h) < 2 ^ 31"
  shows "is_heap h = Inr (heap_order (comparator h) (container h))"
proof -
  have "heap_order (comparator h) (container h) =
        (\<forall>k. 0 \<le> k \<and> k < length (container h) \<longrightarrow> node_ok (comparator h) (container h) k)"
    unfolding heap_order_def node_ok_def
    by (metis (no_types, opaque_lifting) add_lessD1 le0 less_add_one mult_2 trans_less_add1)
  then show ?thesis
    unfolding is_heap_def size_heap_def
    using is_heap_loop_nat [OF len, of 0] by simp
qed

subsection \<open>The loop of heapify\<close>

lemma heapify_loop_neg: "i < 0 \<Longrightarrow> heapify_loop h i = Inr h"
  by (subst heapify_loop.simps) simp

lemma heapify_loop_0: "heapify_loop h 0 = bubble_down h 0"
  by (subst heapify_loop.simps) (simp add: heapify_loop_neg split: sum.splits)

lemma heapify_loop_Suc:
  "heapify_loop h (int (Suc m)) =
     (case bubble_down h (int (Suc m)) of
        Inl e \<Rightarrow> Inl e
      | Inr h' \<Rightarrow> heapify_loop h' (int m))"
proof -
  have "int (Suc m) - 1 = int m" by simp
  then show ?thesis
    by (subst heapify_loop.simps) (simp only: of_nat_0_le_iff if_True)
qed


lemma heapify_loop_total:
  "\<exists>h'. heapify_loop h (int i) = Inr h' \<and> comparator h' = comparator h \<and>
        length (container h') = length (container h) \<and>
        mset (container h') = mset (container h)"
proof (induction i arbitrary: h)
  case 0
  from bubble_down_total [of h 0] show ?case
    by (simp add: heapify_loop_0)
next
  case (Suc i)
  from bubble_down_total [of h "Suc i"] obtain h1 where
    h1: "bubble_down h (int (Suc i)) = Inr h1" "comparator h1 = comparator h"
    "length (container h1) = length (container h)" "mset (container h1) = mset (container h)"
    by blast
  have "heapify_loop h (int (Suc i)) = heapify_loop h1 (int i)"
    by (simp only: heapify_loop_Suc h1 sum.case)
  with Suc [of h1] h1 show ?case
    by auto
qed

lemma heap_from_bd_pre: "heap_from c (Suc i) xs \<Longrightarrow> bd_pre c i i xs"
  unfolding heap_from_def bd_pre_def
proof (intro conjI allI impI)
  fix j
  assume h: "\<forall>j. 0 < j \<and> j < length xs \<and> Suc i \<le> (j - 1) div 2 \<longrightarrow> \<not> c (xs ! ((j - 1) div 2)) (xs ! j)"
    and j: "0 < j \<and> j < length xs \<and> i \<le> (j - 1) div 2 \<and> (j - 1) div 2 \<noteq> i"
  then have "Suc i \<le> (j - 1) div 2" by simp
  with h j show "\<not> c (xs ! ((j - 1) div 2)) (xs ! j)" by blast
next
  fix j
  assume "0 < i \<and> i \<le> (i - 1) div 2"
  then have False by arith
  then show "\<not> c (xs ! ((i - 1) div 2)) (xs ! j)" ..
qed

lemma heapify_loop_order:
  "strict_weak_order (comparator h) \<Longrightarrow> heap_from (comparator h) (Suc i) (container h) \<Longrightarrow>
   heapify_loop h (int i) = Inr h' \<Longrightarrow> heap_from (comparator h) 0 (container h')"
proof (induction i arbitrary: h)
  case 0
  from "0.prems"(3) have h1: "bubble_down h (int 0) = Inr h'" by (simp add: heapify_loop_0)
  from bubble_down_order [OF "0.prems"(1) heap_from_bd_pre [OF "0.prems"(2)] h1]
  show ?case .
next
  case (Suc i)
  from bubble_down_total [of h "Suc i"] obtain h1 where
    h1: "bubble_down h (int (Suc i)) = Inr h1" and c1: "comparator h1 = comparator h" by blast
  have "heapify_loop h (int (Suc i)) = heapify_loop h1 (int i)"
    by (simp only: heapify_loop_Suc h1 sum.case)
  with Suc.prems(3) have r: "heapify_loop h1 (int i) = Inr h'" by simp
  from bubble_down_order [OF Suc.prems(1) heap_from_bd_pre [OF Suc.prems(2)] h1]
  have "heap_from (comparator h1) (Suc i) (container h1)" using c1 by simp
  from Suc.IH [OF _ this r] Suc.prems(1) c1 show ?case by simp
qed

lemma heapify_start_nat:
  assumes "length (container h) < 2 ^ 31"
  shows "heapify_start h = int (length (container h)) - 1"
proof (cases "container h")
  case Nil
  then show ?thesis
    using to_int32_underflow by (simp add: heapify_start_def size_heap_def)
next
  case (Cons x xs)
  with assms show ?thesis
    unfolding heapify_start_def size_heap_def
    by (subst to_int32_pred) simp_all
qed

lemma heapify_Nil: "heapify h [] = Inr (h\<lparr>container := []\<rparr>)"
  by (simp add: heapify_def heapify_start_nat heapify_loop_neg)

lemma heapify_Cons:
  assumes "length xs < 2 ^ 31" "xs \<noteq> []"
  shows "heapify h xs = heapify_loop (h\<lparr>container := xs\<rparr>) (int (length xs - 1))"
proof -
  let ?h = "h\<lparr>container := xs\<rparr>"
  have "heapify_start ?h = int (length xs) - 1"
    using assms(1) by (simp add: heapify_start_nat)
  also have "\<dots> = int (length xs - 1)"
    using assms(2) by (cases xs) simp_all
  finally have st: "heapify_start ?h = int (length xs - 1)" .
  have eq: "h\<lparr>container := [], container := xs\<rparr> = ?h" by simp
  show ?thesis
    unfolding heapify_def Let_def eq st ..
qed

lemma heapify_total:
  assumes "length xs < 2 ^ 31"
  shows "\<exists>h'. heapify h xs = Inr h' \<and> comparator h' = comparator h \<and>
        length (container h') = length xs \<and> mset (container h') = mset xs"
proof (cases "xs = []")
  case True
  then show ?thesis by (simp add: heapify_Nil)
next
  case False
  from heapify_loop_total [of "h\<lparr>container := xs\<rparr>" "length xs - 1"]
  show ?thesis by (simp add: heapify_Cons [OF assms False])
qed

lemma heap_from_length: "heap_from c (length xs) xs"
  unfolding heap_from_def
proof (intro allI impI)
  fix j assume "0 < j \<and> j < length xs \<and> length xs \<le> (j - 1) div 2"
  then have False by arith
  then show "\<not> c (xs ! ((j - 1) div 2)) (xs ! j)" ..
qed

lemma heapify_order:
  assumes swo: "strict_weak_order (comparator h)"
    and len: "length xs < 2 ^ 31"
    and res: "heapify h xs = Inr h'"
  shows "heap_order (comparator h) (container h')"
proof (cases "xs = []")
  case True
  with res show ?thesis by (auto simp: heapify_Nil heap_order_def)
next
  case False
  let ?h = "h\<lparr>container := xs\<rparr>"
  from False have "Suc (length xs - 1) = length xs" by simp
  with heap_from_length [of "comparator h" xs]
  have "heap_from (comparator ?h) (Suc (length xs - 1)) (container ?h)" by simp
  moreover from res have "heapify_loop ?h (int (length xs - 1)) = Inr h'"
    by (simp add: heapify_Cons [OF len False])
  ultimately have "heap_from (comparator ?h) 0 (container h')"
    using swo by (intro heapify_loop_order) simp_all
  then show ?thesis by (simp add: heap_order_iff)
qed

subsection \<open>Push and pop\<close>





lemma butlast_swap_front_back:
  "butlast (swap_front_back (x # xs)) = (if xs = [] then [] else last xs # butlast xs)"
proof (cases "xs = []")
  case True
  then show ?thesis by (simp add: swap_front_back_def)
next
  case False
  then obtain n where n: "length xs = Suc n" by (cases xs) auto
  with False show ?thesis
    by (simp add: swap_front_back_def butlast_list_update)
qed

lemma bubble_down_Nil: "container h = [] \<Longrightarrow> bubble_down h 0 = Inr h"
  by (subst bubble_down.simps) (simp add: has_left_child_def get_left_child_index_def)

lemma pop_empty: "container h = [] \<Longrightarrow> pop h = Inr h"
  by (simp add: pop_def empty_heap_def)

lemma pop_Cons:
  "container h = x # xs \<Longrightarrow>
   pop h = bubble_down (h\<lparr>container := (if xs = [] then [] else last xs # butlast xs)\<rparr>) 0"
  by (simp only: pop_def empty_heap_def butlast_swap_front_back list.simps if_True simp_thms)

lemma pop_total:
  assumes "container h = x # xs"
  shows "\<exists>h'. pop h = Inr h' \<and> comparator h' = comparator h \<and>
        length (container h') = length xs \<and> mset (container h') = mset xs"
proof -
  let ?h = "h\<lparr>container := (if xs = [] then [] else last xs # butlast xs)\<rparr>"
  have m: "mset (container ?h) = mset xs"
  proof (cases "xs = []")
    case True then show ?thesis by simp
  next
    case False
    from arg_cong [OF append_butlast_last_id [OF False], of mset]
    have "add_mset (last xs) (mset (butlast xs)) = mset xs"
      by (simp del: append_butlast_last_id)
    with False show ?thesis by simp
  qed
  have l: "length (container ?h) = length xs" by (cases "xs = []") simp_all
  from bubble_down_total [of ?h 0] m l show ?thesis
    by (simp add: pop_Cons [OF assms])
qed

lemma pop_bd_pre:
  assumes "heap_from c 0 (x # xs)" "xs \<noteq> []"
  shows "bd_pre c 0 0 (last xs # butlast xs)"
  unfolding bd_pre_def
proof (intro conjI allI impI)
  fix j
  assume j: "0 < j \<and> j < length (last xs # butlast xs) \<and> 0 \<le> (j - 1) div 2 \<and> (j - 1) div 2 \<noteq> 0"
  with assms have jl: "j < length xs" by simp
  from j obtain a where a: "j = Suc a" by (cases j) auto
  from j obtain b where b: "(j - 1) div 2 = Suc b" by (cases "(j - 1) div 2") auto
  from jl a have al: "a < length (butlast xs)" by simp
  from a b have "b < a" by arith
  with al have bl: "b < length (butlast xs)" by simp
  from assms(1) have "0 < j \<and> j < length (x # xs) \<and> 0 \<le> (j - 1) div 2 \<longrightarrow>
      \<not> c ((x # xs) ! ((j - 1) div 2)) ((x # xs) ! j)"
    unfolding heap_from_def by blast
  moreover have "0 < j \<and> j < length (x # xs) \<and> 0 \<le> (j - 1) div 2"
    using j jl by simp
  ultimately have "\<not> c ((x # xs) ! ((j - 1) div 2)) ((x # xs) ! j)" by blast
  with a b have "\<not> c (xs ! b) (xs ! a)" by simp
  with al bl have "\<not> c (butlast xs ! b) (butlast xs ! a)" by (simp add: nth_butlast)
  with a b show "\<not> c ((last xs # butlast xs) ! ((j - 1) div 2)) ((last xs # butlast xs) ! j)"
    by simp
next
  fix j :: nat
  assume "0 < (0::nat) \<and> (0::nat) \<le> (0 - 1) div 2"
  then show "\<not> c ((last xs # butlast xs) ! ((0 - 1) div 2)) ((last xs # butlast xs) ! j)" by simp
qed

lemma pop_order:
  assumes swo: "strict_weak_order (comparator h)"
    and inv: "heap_order (comparator h) (container h)"
    and res: "pop h = Inr h'"
  shows "heap_order (comparator h) (container h')"
proof (cases "container h")
  case Nil
  with res inv show ?thesis by (simp add: pop_empty)
next
  case (Cons x xs)
  show ?thesis
  proof (cases "xs = []")
    case True
    with Cons res have "bubble_down (h\<lparr>container := []\<rparr>) 0 = Inr h'"
      by (simp add: pop_Cons)
    then have "h' = h\<lparr>container := []\<rparr>" by (simp add: bubble_down_Nil)
    then show ?thesis by (simp add: heap_order_def)
  next
    case False
    let ?h = "h\<lparr>container := last xs # butlast xs\<rparr>"
    from Cons res False have r: "bubble_down ?h (int 0) = Inr h'"
      by (simp add: pop_Cons)
    from inv Cons have "heap_from (comparator h) 0 (x # xs)" by (simp add: heap_order_iff)
    from pop_bd_pre [OF this False] have "bd_pre (comparator ?h) 0 0 (container ?h)" by simp
    from bubble_down_order [OF _ this r] swo show ?thesis by (simp add: heap_order_iff)
  qed
qed

lemma heap_top_extreme:
  assumes swo: "strict_weak_order c" and inv: "heap_from c 0 xs"
  shows "j < length xs \<Longrightarrow> \<not> c (xs ! 0) (xs ! j)"
proof (induction j rule: less_induct)
  case (less j)
  show ?case
  proof (cases "j = 0")
    case True
    then show ?thesis using swo_irrefl [OF swo] by simp
  next
    case False
    then have p: "(j - 1) div 2 < j" by arith
    with less.prems have "(j - 1) div 2 < length xs" by simp
    from less.IH [OF p this] have a: "\<not> c (xs ! 0) (xs ! ((j - 1) div 2))" .
    from inv False less.prems have "\<not> c (xs ! ((j - 1) div 2)) (xs ! j)"
      unfolding heap_from_def by simp
    with a swo_negtrans [OF swo] show ?thesis by blast
  qed
qed

subsection \<open>The size\<close>


subsection \<open>Every accessor is called behind its guard\<close>

lemma container_at_guard: "container_at h n \<noteq> Inl IndexUnavailable"
  by (simp add: container_at_def)

lemma swap_at_guard: "swap_at h i j \<noteq> Inl IndexUnavailable"
  by (simp add: swap_at_def container_at_def)

lemma left_child_guard: "has_left_child h i \<Longrightarrow> left_child h i \<noteq> Inl IndexUnavailable"
  by (simp add: left_child_def container_at_guard)

lemma right_child_guard: "has_right_child h i \<Longrightarrow> right_child h i \<noteq> Inl IndexUnavailable"
  by (simp add: right_child_def container_at_guard)

lemma parent_guard: "has_parent h i \<Longrightarrow> parent h i \<noteq> Inl IndexUnavailable"
  by (simp add: parent_def container_at_guard)

lemma swappable_index_guard:
  "has_left_child h i \<Longrightarrow> swappable_index h i \<noteq> Inl IndexUnavailable"
  using left_child_guard [of h i] right_child_guard [of h i]
  by (auto simp: swappable_index_def split: sum.splits)

lemma bubble_down_guard: "bubble_down h i \<noteq> Inl IndexUnavailable"
proof (induction h i rule: bubble_down.induct)
  case (1 h index)
  show ?case
  proof (cases "has_left_child h index")
    case False
    then show ?thesis by (subst bubble_down.simps) simp
  next
    case True
    from swappable_index_guard [OF True] "1.IH" [OF True]
    show ?thesis
      by (subst bubble_down.simps)
        (auto split: sum.splits simp: container_at_guard swap_at_guard)
  qed
qed

lemma heapify_loop_guard: "heapify_loop h i \<noteq> Inl IndexUnavailable"
proof (induction h i rule: heapify_loop.induct)
  case (1 h i)
  from bubble_down_guard [of h i] "1.IH" show ?case
    by (subst heapify_loop.simps) (auto split: sum.splits)
qed

lemma left_violated_guard: "left_violated h i \<noteq> Inl IndexUnavailable"
  using left_child_guard [of h "to_int32 i"] container_at_guard [of h "uint i"]
  by (auto simp: left_violated_def split: sum.splits)

lemma right_violated_guard: "right_violated h i \<noteq> Inl IndexUnavailable"
  using right_child_guard [of h "to_int32 i"] container_at_guard [of h "uint i"]
  by (auto simp: right_violated_def split: sum.splits)

lemma is_heap_loop_guard: "is_heap_loop h sz i \<noteq> Inl IndexUnavailable"
proof (induction h sz i rule: is_heap_loop.induct)
  case (1 h sz i)
  from left_violated_guard [of h i] right_violated_guard [of h i] "1.IH" show ?case
    by (subst is_heap_loop.simps) (auto split: sum.splits bool.splits)
qed

lemma bubble_up_guard:
  assumes "bubble_up h i = Some r"
  shows "r \<noteq> Inl IndexUnavailable"
  apply (rule bubble_up.raw_induct [where P = "\<lambda>h i r. r \<noteq> Inl IndexUnavailable", OF _ assms])
  subgoal premises prems for f h index r
    using prems(2) prems(1) parent_guard [of h index]
    by (auto split: if_splits sum.splits simp: container_at_guard swap_at_guard)
  done


subsection \<open>Sequences of operations\<close>







subsection \<open>The top element\<close>

lemma top_heap_Cons: "container h = x # xs \<Longrightarrow> top_heap h = Value x"
  by (simp add: top_heap_def)



subsection \<open>The default comparator\<close>

lemma less_strict_weak_order: "strict_weak_order ((<) :: 'a::linorder \<Rightarrow> 'a \<Rightarrow> bool)"
  by (auto simp: strict_weak_order_def)

lemma heap_order_less_top:
  fixes x :: "'a::linorder"
  assumes "heap_order (<) (x # xs)" and "y \<in> set (x # xs)"
  shows "y \<le> x"
proof -
  from assms(2) obtain j where j: "j < length (x # xs)" "(x # xs) ! j = y"
    by (meson in_set_conv_nth)
  from heap_top_extreme [OF less_strict_weak_order assms(1) [unfolded heap_order_iff] j(1)] j(2)
  show ?thesis by simp
qed

lemma drain_empty: "container h = [] \<Longrightarrow> drain h = Inr []"
  by (subst drain.simps) (simp add: empty_heap_def)

lemma drain_sorted:
  fixes h :: "'a::linorder Heap"
  assumes "comparator h = (<)"
  shows "heap_order (<) (container h) \<Longrightarrow> drain h = Inr (map Value (rev (sort (container h))))"
  using assms
proof (induction "length (container h)" arbitrary: h rule: less_induct)
  case less
  show ?case
  proof (cases "container h")
    case Nil
    then show ?thesis by (simp add: drain_empty)
  next
    case (Cons x xs)
    from pop_total [OF Cons] obtain h' where h': "pop h = Inr h'" "comparator h' = comparator h"
      "length (container h') = length xs" "mset (container h') = mset xs" by blast
    have swo: "strict_weak_order (comparator h)"
      using less.prems(2) less_strict_weak_order by simp
    from pop_order [OF swo _ h'(1)] less.prems have o': "heap_order (<) (container h')" by simp
    have "length (container h') < length (container h)" using h'(3) Cons by simp
    from less.hyps [OF this o'] h'(2) less.prems(2)
    have d': "drain h' = Inr (map Value (rev (sort (container h'))))" by simp
    have "sort xs = sort (container h')"
      by (rule properties_for_sort) (simp_all add: h'(4))
    with d' have d: "drain h' = Inr (map Value (rev (sort xs)))" by simp
    have "\<forall>y\<in>set (sort xs). y \<le> x"
      using heap_order_less_top [of x xs] less.prems(1) Cons by simp
    then have "insort x (sort xs) = sort xs @ [x]"
      by (intro sorted_insort_is_snoc) simp_all
    then have r: "rev (sort (x # xs)) = x # rev (sort xs)" by simp
    have "drain h = Inr (Value x # map Value (rev (sort xs)))"
      using Cons h'(1) d by (subst drain.simps) (simp add: empty_heap_def top_heap_Cons)
    with r Cons show ?thesis by simp
  qed
qed

subsection \<open>A reflexive comparator\<close>



subsection \<open>Beyond the index range\<close>









section \<open>The claims\<close>




text \<open>
  C2, as amended. With the default comparator, the natural less-than, the heap is a
  max-heap: after \<open>heapify\<close> of a non-empty collection \<open>top()\<close> returns its maximum,
  and reading \<open>top()\<close> then calling \<open>pop()\<close> until the heap is empty yields the elements
  in non-increasing order. For \<open>[5,3,8,1,9,2]\<close>: \<open>top()\<close> returns 9, and the sequence
  is 9, 8, 5, 3, 2, 1.
\<close>

theorem default_comparator_max_heap:
  fixes xs :: "'a::linorder list"
  assumes len: "length xs < 2 ^ 30"
  shows "(xs \<noteq> [] \<longrightarrow> then_top (heapify (Heap_new (<)) xs) = Inr (Value (Max (set xs)))) \<and>
         then_drain (heapify (Heap_new (<)) xs) = Inr (map Value (rev (sort xs)))"
proof -
  let ?e = "Heap_new ((<) :: 'a \<Rightarrow> 'a \<Rightarrow> bool)"
  have ce: "comparator ?e = (<)" by (simp add: Heap_new_def)
  from len have l31: "length xs < 2 ^ 31" by simp
  from heapify_total [OF l31, of ?e] obtain h where
    h: "heapify ?e xs = Inr h" "comparator h = (<)" "mset (container h) = mset xs"
    using ce by auto
  have o: "heap_order (<) (container h)"
    using heapify_order [of ?e xs h] less_strict_weak_order ce l31 h(1) by simp
  have "sort (container h) = sort xs"
    by (rule properties_for_sort [symmetric]) (simp_all add: h(3))
  with drain_sorted [OF h(2) o] h(1)
  have d: "then_drain (heapify ?e xs) = Inr (map Value (rev (sort xs)))"
    by (simp add: then_drain_def)
  have t: "then_top (heapify ?e xs) = Inr (Value (Max (set xs)))" if ne: "xs \<noteq> []"
  proof -
    from ne h(3) have "container h \<noteq> []" by auto
    then obtain b bs where c: "container h = b # bs" by (cases "container h") auto
    from h(3) have s: "set (b # bs) = set xs" using c by (metis mset_eq_setD)
    have "Max (set xs) = b"
    proof (rule Max_eqI)
      show "finite (set xs)" by simp
      show "y \<le> b" if "y \<in> set xs" for y
      proof -
        from that s have "y \<in> set (b # bs)" by blast
        moreover from o c have "heap_order (<) (b # bs)" by simp
        ultimately show ?thesis by (intro heap_order_less_top)
      qed
      show "b \<in> set xs" using s by auto
    qed
    with h(1) c show ?thesis by (simp add: then_top_def top_heap_Cons)
  qed
  from d t show ?thesis by blast
qed

text \<open>The example of C2: \<open>heapify([5,3,8,1,9,2])\<close>.\<close>

theorem default_comparator_max_heap_witness:
  "length [5, 3, 8, 1, 9, 2 :: int] < 2 ^ 30 \<and> [5, 3, 8, 1, 9, 2 :: int] \<noteq> [] \<and>
   then_top (heapify (Heap_new (<)) [5, 3, 8, 1, 9, 2 :: int]) = Inr (Value 9) \<and>
   then_drain (heapify (Heap_new (<)) [5, 3, 8, 1, 9, 2 :: int]) =
     Inr [Value 9, Value 8, Value 5, Value 3, Value 2, Value 1]"
proof -
  have l: "length [5, 3, 8, 1, 9, 2 :: int] < 2 ^ 30" by simp
  have m: "Max (set [5, 3, 8, 1, 9, 2 :: int]) = 9" by simp
  have s: "rev (sort [5, 3, 8, 1, 9, 2 :: int]) = [9, 8, 5, 3, 2, 1]" by simp
  from default_comparator_max_heap [OF l] m s show ?thesis by simp
qed

text \<open>C2 as stated (a min-heap, \<open>top()\<close> returns 1, the sequence 1, 2, 3, 5, 8, 9) fails on
  its own input.\<close>

theorem default_comparator_min_heap_counterexample:
  "then_top (heapify (Heap_new (<)) [5, 3, 8, 1, 9, 2 :: int]) = Inr (Value 9) \<and>
   then_top (heapify (Heap_new (<)) [5, 3, 8, 1, 9, 2 :: int]) \<noteq> Inr (Value 1) \<and>
   then_drain (heapify (Heap_new (<)) [5, 3, 8, 1, 9, 2 :: int]) \<noteq>
     Inr [Value 1, Value 2, Value 3, Value 5, Value 8, Value 9]"
  by code_simp




text \<open>
  C4. \<open>pop\<close> on an empty heap returns the heap unchanged, without an exception. On a
  non-empty heap it exchanges the first and the last element, removes the last, and
  bubbles down from index 0: the container of \<open>x # xs\<close> becomes \<open>last xs # butlast xs\<close>
  (or the empty list) before bubble-down. It returns without an exception, the size is one
  less, and the elements are those of \<open>xs\<close>.
\<close>

theorem pop_contract:
  "(container h = [] \<longrightarrow> pop h = Inr h) \<and>
   (\<forall>x xs. container h = x # xs \<longrightarrow>
      pop h = bubble_down (h\<lparr>container := butlast ((x # xs)[0 := last (x # xs), length xs := x])\<rparr>) 0 \<and>
      butlast ((x # xs)[0 := last (x # xs), length xs := x]) =
        (if xs = [] then [] else last xs # butlast xs) \<and>
      (\<exists>h'. pop h = Inr h' \<and> comparator h' = comparator h \<and>
            size_heap h' = size_heap h - 1 \<and>
            length (container h') = length xs \<and> mset (container h') = mset xs))"
proof (intro conjI allI impI)
  assume "container h = []"
  then show "pop h = Inr h" by (rule pop_empty)
next
  fix x xs assume c: "container h = x # xs"
  have sw: "butlast ((x # xs)[0 := last (x # xs), length xs := x]) =
        (if xs = [] then [] else last xs # butlast xs)"
    using butlast_swap_front_back [of x xs] by (simp add: swap_front_back_def)
  show "butlast ((x # xs)[0 := last (x # xs), length xs := x]) =
        (if xs = [] then [] else last xs # butlast xs)" by (rule sw)
  show "pop h = bubble_down (h\<lparr>container := butlast ((x # xs)[0 := last (x # xs), length xs := x])\<rparr>) 0"
    unfolding sw by (rule pop_Cons [OF c])
  from pop_total [OF c] obtain h' where
    h': "pop h = Inr h'" "comparator h' = comparator h"
    "length (container h') = length xs" "mset (container h') = mset xs" by blast
  with c have "size_heap h' = size_heap h - 1" by (simp add: size_heap_def)
  with h' show "\<exists>h'. pop h = Inr h' \<and> comparator h' = comparator h \<and>
            size_heap h' = size_heap h - 1 \<and>
            length (container h') = length xs \<and> mset (container h') = mset xs" by blast
qed

text \<open>C4 at the empty heap and at a heap of six elements.\<close>

theorem pop_contract_witness:
  "pop (Heap_new ((<) :: int \<Rightarrow> int \<Rightarrow> bool)) = Inr (Heap_new (<)) \<and>
   pop \<lparr>container = [9, 5, 8, 1, 3, 2 :: int], comparator = (<)\<rparr> =
     bubble_down \<lparr>container = [2, 5, 8, 1, 3], comparator = (<)\<rparr> 0 \<and>
   then_container (pop \<lparr>container = [9, 5, 8, 1, 3, 2 :: int], comparator = (<)\<rparr>) = Inr [8, 5, 2, 1, 3] \<and>
   then_size (pop \<lparr>container = [9, 5, 8, 1, 3, 2 :: int], comparator = (<)\<rparr>) = Inr 5"
proof -
  have a: "pop (Heap_new ((<) :: int \<Rightarrow> int \<Rightarrow> bool)) = Inr (Heap_new (<))"
    using pop_contract [of "Heap_new ((<) :: int \<Rightarrow> int \<Rightarrow> bool)"] by (simp add: Heap_new_def)
  have b: "pop \<lparr>container = [9, 5, 8, 1, 3, 2 :: int], comparator = (<)\<rparr> =
     bubble_down \<lparr>container = [2, 5, 8, 1, 3], comparator = (<)\<rparr> 0"
    using pop_contract [of "\<lparr>container = [9, 5, 8, 1, 3, 2 :: int], comparator = (<)\<rparr>"] by simp
  have c: "then_container (bubble_down \<lparr>container = [2, 5, 8, 1, 3 :: int], comparator = (<)\<rparr> 0) = Inr [8, 5, 2, 1, 3]"
    by code_simp
  have d: "then_size (bubble_down \<lparr>container = [2, 5, 8, 1, 3 :: int], comparator = (<)\<rparr> 0) = Inr 5"
    by code_simp
  from a b c d show ?thesis by simp
qed




text \<open>
  C6. The exception of \<open>left_child\<close>, \<open>right_child\<close> and \<open>parent\<close> is unreachable from
  the public operations: for every heap state, comparator and argument, none of \<open>push\<close>,
  \<open>heapify\<close>, \<open>pop\<close> and \<open>is_heap\<close> ends with \<open>IndexUnavailable\<close>. Each accessor
  is called only where its \<open>has_\<close> predicate has just held (the guard lemmas above).
\<close>

theorem index_unavailable_unreachable:
  "push h v \<noteq> Some (Inl IndexUnavailable) \<and>
   heapify h xs \<noteq> Inl IndexUnavailable \<and>
   pop h \<noteq> Inl IndexUnavailable \<and>
   is_heap h \<noteq> Inl IndexUnavailable"
proof -
  have "push h v \<noteq> Some (Inl IndexUnavailable)"
    using bubble_up_guard by (fastforce simp: push_def Let_def)
  moreover have "heapify h xs \<noteq> Inl IndexUnavailable"
    by (simp add: heapify_def Let_def heapify_loop_guard)
  moreover have "pop h \<noteq> Inl IndexUnavailable"
    by (simp add: pop_def bubble_down_guard)
  moreover have "is_heap h \<noteq> Inl IndexUnavailable"
    by (simp add: is_heap_def is_heap_loop_guard)
  ultimately show ?thesis by blast
qed




text \<open>
  C8, as amended. \<open>top()\<close> on a non-empty heap is the element at index 0; it returns no
  heap, so it mutates nothing. On an empty heap the source makes no check: it calls
  \<open>container.front()\<close>, whose behaviour is undefined, and no failure is raised.
\<close>

theorem top_contract:
  "(container h \<noteq> [] \<longrightarrow> top_heap h = Value (container h ! 0)) \<and>
   (container h = [] \<longrightarrow> top_heap h = Undefined)"
  by (cases "container h") (simp_all add: top_heap_def)

text \<open>C8 at a heap of three elements and at the empty heap.\<close>

theorem top_contract_witness:
  "container \<lparr>container = [9, 5, 8 :: int], comparator = (<)\<rparr> \<noteq> [] \<and>
   top_heap \<lparr>container = [9, 5, 8 :: int], comparator = (<)\<rparr> = Value 9 \<and>
   container (Heap_new ((<) :: int \<Rightarrow> int \<Rightarrow> bool)) = [] \<and>
   top_heap (Heap_new ((<) :: int \<Rightarrow> int \<Rightarrow> bool)) = Undefined"
  using top_contract [of "\<lparr>container = [9, 5, 8 :: int], comparator = (<)\<rparr>"]
    top_contract [of "Heap_new ((<) :: int \<Rightarrow> int \<Rightarrow> bool)"]
  by (simp add: Heap_new_def)

text \<open>C8 as stated (\<open>top()\<close> on an empty heap fails with EmptyHeap) does not hold: the
  call is not a failure.\<close>

theorem top_empty_counterexample:
  "top_heap (Heap_new ((<) :: int \<Rightarrow> int \<Rightarrow> bool)) = Undefined"
  by (simp add: top_heap_def Heap_new_def)



text \<open>
  C10. For every heap state, \<open>heapify\<close> with an empty collection leaves the heap empty.
  The unsigned \<open>size() - 1\<close> underflows to \<open>2 ^ 64 - 1\<close>; narrowed to \<open>int32_t\<close>
  it is \<open>-1\<close>, so the descending loop runs zero times: bubble-down is called for no
  index and no element is read. The call returns without an exception, and \<open>is_heap\<close>
  on the result is true.
\<close>

theorem heapify_empty_collection:
  "unat (size_heap (h\<lparr>container := []\<rparr>) - 1) = 2 ^ 64 - 1 \<and>
   heapify_start (h\<lparr>container := []\<rparr>) = - 1 \<and>
   heapify_loop (h\<lparr>container := []\<rparr>) (heapify_start (h\<lparr>container := []\<rparr>)) =
     bubble_down_each (h\<lparr>container := []\<rparr>) [] \<and>
   heapify h [] = Inr (h\<lparr>container := []\<rparr>) \<and>
   is_heap (h\<lparr>container := []\<rparr>) = Inr True"
proof -
  let ?h = "h\<lparr>container := []\<rparr>"
  have u: "unat (size_heap ?h - 1) = 2 ^ 64 - 1"
    by (simp add: size_heap_def unsigned_minus_1_eq_mask mask_eq_exp_minus_1)
  have s: "heapify_start ?h = - 1"
    by (simp add: heapify_start_nat)
  have l: "heapify_loop ?h (heapify_start ?h) = bubble_down_each ?h []"
    by (simp add: s heapify_loop_neg)
  have i: "is_heap ?h = Inr True"
    by (simp add: is_heap_nat heap_order_def)
  from u s l i show ?thesis
    by (simp only: heapify_Nil simp_thms)
qed


end
